theory Spec2Isabelle
  imports Main "HOL-Library.Word" "HOL-Library.Monad_Syntax"
begin

unbundle bit_operations_syntax

section \<open>Data model of parser.go\<close>

text \<open>
  Go's \<open>uint\<close> and \<open>uint64\<close> are 64-bit words: \<open>+\<close> wraps, comparisons are unsigned and
  a shift by 64 or more gives 0 (as \<open>push_bit\<close> does on a word). A Go string is a sequence
  of bytes, here a \<open>char list\<close>.
\<close>

type_synonym u64 = "64 word"

text \<open>
  Modelled from the spec: the type \<open>bounds\<close> is declared outside parser.go. The spec gives
  it a minimum, a maximum and an optional name table (a nil map is \<open>None\<close>).
\<close>

record bounds =
  min_b :: u64
  max_b :: u64
  names :: "(string \<rightharpoonup> u64) option"

text \<open>
  Modelled from the spec: the six bounds and the wildcard bit are declared outside
  parser.go. The spec fixes the wildcard bit at position 63, the month names
  \<open>jan..dec\<close> as 1..12 and the weekday names \<open>sun..sat\<close> as 0..6.
\<close>

definition starBit :: u64 where
  "starBit = push_bit 63 1"

definition seconds :: bounds where
  "seconds = \<lparr>min_b = 0, max_b = 59, names = None\<rparr>"

definition minutes :: bounds where
  "minutes = \<lparr>min_b = 0, max_b = 59, names = None\<rparr>"

definition hours :: bounds where
  "hours = \<lparr>min_b = 0, max_b = 23, names = None\<rparr>"

definition dom :: bounds where
  "dom = \<lparr>min_b = 1, max_b = 31, names = None\<rparr>"

definition months :: bounds where
  "months = \<lparr>min_b = 1, max_b = 12, names = Some (map_of
     [(''jan'', 1), (''feb'', 2), (''mar'', 3), (''apr'', 4), (''may'', 5), (''jun'', 6),
      (''jul'', 7), (''aug'', 8), (''sep'', 9), (''oct'', 10), (''nov'', 11), (''dec'', 12)])\<rparr>"

definition dow :: bounds where
  "dow = \<lparr>min_b = 0, max_b = 6, names = Some (map_of
     [(''sun'', 0), (''mon'', 1), (''tue'', 2), (''wed'', 3), (''thu'', 4), (''fri'', 5),
      (''sat'', 6)])\<rparr>"

text \<open>
  Every \<open>fmt.Errorf\<close> of parser.go is one constructor, carrying the values its message
  prints.
\<close>

datatype error =
    EmptySpec
  | BadLocation string string
  | NoDescriptors string
  | MultipleOptionals
  | ExpectedExactly int int "string list"
  | ExpectedRange int int int "string list"
  | UnknownOptional
  | TooManyHyphens string
  | TooManySlashes string
  | BelowMinimum u64 u64 string
  | AboveMaximum u64 u64 string
  | BeyondEnd u64 u64 string
  | StepNotPositive string
  | ParseIntFailed string
  | NegativeNumber int string
  | BadDuration string string
  | UnrecognizedDescriptor string

section \<open>The library functions parser.go calls\<close>

text \<open>
  \<open>strings.Split(s, sep)\<close> for a separator of one byte, the only use in parser.go: the
  pieces between the separators, empty pieces kept, never an empty list.
\<close>

fun Split :: "string \<Rightarrow> char \<Rightarrow> string list" where
  "Split [] c = [[]]"
| "Split (x # xs) c =
     (if x = c then [] # Split xs c
      else (x # hd (Split xs c)) # tl (Split xs c))"

text \<open>
  \<open>strings.FieldsFunc(s, f)\<close>: the maximal runs of bytes that do not satisfy \<open>f\<close>, empty
  runs dropped. \<open>cur\<close> is the run being read.
\<close>

fun FieldsFunc_from :: "(char \<Rightarrow> bool) \<Rightarrow> string \<Rightarrow> string \<Rightarrow> string list" where
  "FieldsFunc_from f cur [] = (if cur = [] then [] else [cur])"
| "FieldsFunc_from f cur (x # xs) =
     (if f x then (if cur = [] then FieldsFunc_from f [] xs
                   else cur # FieldsFunc_from f [] xs)
      else FieldsFunc_from f (cur @ [x]) xs)"

definition FieldsFunc :: "string \<Rightarrow> (char \<Rightarrow> bool) \<Rightarrow> string list" where
  "FieldsFunc s f = FieldsFunc_from f [] s"

text \<open>
  White space as \<open>strings.Fields\<close> and \<open>strings.TrimSpace\<close> see it on ASCII bytes: tab,
  line feed, vertical tab, form feed, carriage return and space. The Unicode spaces
  beyond ASCII (U+0085, U+00A0 and others) are not modelled.
\<close>

definition isSpace :: "char \<Rightarrow> bool" where
  "isSpace c = (c \<in> set [CHR 0x09, CHR 0x0A, CHR 0x0B, CHR 0x0C, CHR 0x0D, CHR '' ''])"

definition Fields :: "string \<Rightarrow> string list" where
  "Fields s = FieldsFunc s isSpace"

definition TrimSpace :: "string \<Rightarrow> string" where
  "TrimSpace s = rev (dropWhile isSpace (rev (dropWhile isSpace s)))"

definition HasPrefix :: "string \<Rightarrow> string \<Rightarrow> bool" where
  "HasPrefix s p = (take (length p) s = p)"

text \<open>\<open>strings.Index(s, sep)\<close> for a separator of one byte: the first position, or -1.\<close>

fun Index :: "string \<Rightarrow> char \<Rightarrow> int" where
  "Index [] c = -1"
| "Index (x # xs) c =
     (if x = c then 0 else (let i = Index xs c in if i < 0 then -1 else i + 1))"

text \<open>
  The slice expression \<open>s[a:b]\<close> on a string: Go panics unless \<open>0 \<le> a \<le> b \<le> len(s)\<close>;
  the panic is \<open>None\<close>.
\<close>

definition slice :: "string \<Rightarrow> int \<Rightarrow> int \<Rightarrow> string option" where
  "slice s a b =
     (if 0 \<le> a \<and> a \<le> b \<and> b \<le> int (length s)
      then Some (take (nat (b - a)) (drop (nat a) s)) else None)"

text \<open>
  \<open>strings.ToLower\<close> on ASCII bytes. Go lowers every Unicode letter; two runes beyond
  ASCII (U+0130 and U+212A) lower to the ASCII letters i and k, which this model leaves
  as they are.
\<close>

definition lower_byte :: "char \<Rightarrow> char" where
  "lower_byte c =
     (let n = (of_char c :: nat) in if 65 \<le> n \<and> n \<le> 90 then char_of (n + 32) else c)"

definition ToLower :: "string \<Rightarrow> string" where
  "ToLower s = map lower_byte s"

text \<open>
  \<open>strconv.Atoi\<close>: an optional sign, then one or more decimal digits, and the value must
  fit the 64-bit \<open>int\<close>; every failure is \<open>None\<close>.
\<close>

definition is_digit :: "char \<Rightarrow> bool" where
  "is_digit c = (48 \<le> (of_char c :: nat) \<and> (of_char c :: nat) \<le> 57)"

definition digits_value :: "string \<Rightarrow> nat" where
  "digits_value ds = foldl (\<lambda>n c. n * 10 + ((of_char c :: nat) - 48)) 0 ds"

definition Atoi :: "string \<Rightarrow> int option" where
  "Atoi s =
     (let neg = (s \<noteq> [] \<and> hd s = CHR ''-'');
          ds = (if s \<noteq> [] \<and> (hd s = CHR ''-'' \<or> hd s = CHR ''+'') then tl s else s)
      in if ds = [] \<or> \<not> list_all is_digit ds then None
         else (let n = int (digits_value ds); v = (if neg then - n else n)
               in if v < - (2 ^ 63) \<or> 2 ^ 63 - 1 < v then None else Some v))"

section \<open>Parsing one value\<close>

definition mustParseInt :: "string \<Rightarrow> error + u64" where
  "mustParseInt expr =
     (case Atoi expr of
        None \<Rightarrow> Inl (ParseIntFailed expr)
      | Some num \<Rightarrow>
          if num < 0 then Inl (NegativeNumber num expr) else Inr (word_of_int num))"

definition parseIntOrName :: "string \<Rightarrow> (string \<rightharpoonup> u64) option \<Rightarrow> error + u64" where
  "parseIntOrName expr nms =
     (case nms of
        None \<Rightarrow> mustParseInt expr
      | Some m \<Rightarrow>
          (case m (ToLower expr) of
             Some namedInt \<Rightarrow> Inr namedInt
           | None \<Rightarrow> mustParseInt expr))"

section \<open>getBits\<close>

text \<open>
  The loop \<open>for i := min; i <= max; i += step\<close> runs on 64-bit words and does not end
  for every input (a step of 0, or a maximum the wrapped counter never passes), so not
  returning is the value \<open>None\<close>.
\<close>

partial_function (option) getBits_loop :: "u64 \<Rightarrow> u64 \<Rightarrow> u64 \<Rightarrow> u64 \<Rightarrow> u64 option" where
  "getBits_loop i maxv step bits =
     (if i \<le> maxv
      then getBits_loop (i + step) maxv step (bits OR push_bit (unat i) 1)
      else Some bits)"

declare getBits_loop.simps [code]

definition getBits :: "u64 \<Rightarrow> u64 \<Rightarrow> u64 \<Rightarrow> u64 option" where
  "getBits minv maxv step =
     (if step = 1
      then Some (NOT (push_bit (unat (maxv + 1)) (- 1)) AND push_bit (unat minv) (- 1))
      else getBits_loop minv maxv step 0)"

definition all_b :: "bounds \<Rightarrow> u64 option" where
  "all_b r = map_option (\<lambda>b. b OR starBit) (getBits (min_b r) (max_b r) 1)"

section \<open>getRange and getField\<close>

text \<open>
  \<open>getRange\<close> up to its last \<open>switch\<close> (lines 259 to 323): the start, the end, the step
  and the extra bit of the expression, or the first error. The two debugging
  \<open>fmt.Println\<close> calls write to standard output and are left out.
\<close>

definition getRange_ends :: "string list \<Rightarrow> string \<Rightarrow> bounds \<Rightarrow> error + (u64 \<times> u64 \<times> u64)" where
  "getRange_ends lowAndHigh expr r =
     (if hd lowAndHigh = ''*'' \<or> hd lowAndHigh = ''?''
      then Inr (min_b r, max_b r, starBit)
      else (case parseIntOrName (hd lowAndHigh) (names r) of
              Inl err \<Rightarrow> Inl err
            | Inr start \<Rightarrow>
                if length lowAndHigh = 1 then Inr (start, start, 0)
                else if length lowAndHigh = 2
                then (case parseIntOrName (lowAndHigh ! 1) (names r) of
                        Inl err \<Rightarrow> Inl err
                      | Inr end \<Rightarrow> Inr (start, end, 0))
                else Inl (TooManyHyphens expr)))"

definition getRange_resolve :: "string \<Rightarrow> bounds \<Rightarrow> error + (u64 \<times> u64 \<times> u64 \<times> u64)" where
  "getRange_resolve expr r =
     (let rangeAndStep = Split expr CHR ''/'';
          lowAndHigh = Split (hd rangeAndStep) CHR ''-'';
          singleDigit = (length lowAndHigh = 1)
      in case getRange_ends lowAndHigh expr r of
           Inl err \<Rightarrow> Inl err
         | Inr (start, end, extra) \<Rightarrow>
             if length rangeAndStep = 1 then Inr (start, end, 1, extra)
             else if length rangeAndStep = 2
             then (case mustParseInt (rangeAndStep ! 1) of
                     Inl err \<Rightarrow> Inl err
                   | Inr step \<Rightarrow>
                       Inr (start, if singleDigit then max_b r else end, step,
                            if 1 < step then 0 else extra))
             else Inl (TooManySlashes expr))"

text \<open>The checks and the mask (lines 325 to 338).\<close>

definition getRange_check :: "u64 \<Rightarrow> u64 \<Rightarrow> u64 \<Rightarrow> u64 \<Rightarrow> string \<Rightarrow> bounds \<Rightarrow> (error + u64) option" where
  "getRange_check start end step extra expr r =
     (if start < min_b r then Some (Inl (BelowMinimum start (min_b r) expr))
      else if max_b r < end then Some (Inl (AboveMaximum end (max_b r) expr))
      else if end < start then Some (Inl (BeyondEnd start end expr))
      else if step = 0 then Some (Inl (StepNotPositive expr))
      else map_option (\<lambda>b. Inr (b OR extra)) (getBits start end step))"

definition getRange :: "string \<Rightarrow> bounds \<Rightarrow> (error + u64) option" where
  "getRange expr r =
     (case getRange_resolve expr r of
        Inl err \<Rightarrow> Some (Inl err)
      | Inr (start, end, step, extra) \<Rightarrow> getRange_check start end step extra expr r)"

text \<open>
  \<open>getField\<close> returns the bits read so far together with the error, if any: the pair
  \<open>(bits, err)\<close> of the source.
\<close>

fun getField_loop :: "string list \<Rightarrow> bounds \<Rightarrow> u64 \<Rightarrow> (u64 \<times> error option) option" where
  "getField_loop [] r bits = Some (bits, None)"
| "getField_loop (expr # ranges) r bits =
     (case getRange expr r of
        None \<Rightarrow> None
      | Some (Inl err) \<Rightarrow> Some (bits, Some err)
      | Some (Inr b) \<Rightarrow> getField_loop ranges r (bits OR b))"

definition getField :: "string \<Rightarrow> bounds \<Rightarrow> (u64 \<times> error option) option" where
  "getField field r = getField_loop (FieldsFunc field (\<lambda>c. c = CHR '','')) r 0"

section \<open>Parser options and normalizeFields\<close>

text \<open>
  A function that can panic returns a \<open>result\<close>: the value, the error of the pair
  \<open>(value, error)\<close>, or the panic.
\<close>

datatype 'a result = Ok 'a | Err error | Panic

text \<open>
  \<open>ParseOption\<close> is a Go \<open>int\<close> used as a set of flags, \<open>1 << iota\<close>. On the integers
  \<open>AND\<close> and \<open>OR\<close> are those of two's complement, as in Go.
\<close>

type_synonym ParseOption = int

definition Second :: ParseOption where "Second = 1"
definition SecondOptional :: ParseOption where "SecondOptional = 2"
definition Minute :: ParseOption where "Minute = 4"
definition Hour :: ParseOption where "Hour = 8"
definition Dom :: ParseOption where "Dom = 16"
definition Month :: ParseOption where "Month = 32"
definition Dow :: ParseOption where "Dow = 64"
definition DowOptional :: ParseOption where "DowOptional = 128"
definition Descriptor :: ParseOption where "Descriptor = 256"

definition places :: "ParseOption list" where
  "places = [Second, Minute, Hour, Dom, Month, Dow]"

definition defaults :: "string list" where
  "defaults = [''0'', ''0'', ''0'', ''*'', ''*'', ''*'']"

record Parser =
  options :: ParseOption

definition NewParser :: "ParseOption \<Rightarrow> Parser result" where
  "NewParser opts =
     (let optionals = (if 0 < opts AND DowOptional then 1 else 0 :: nat);
          optionals = (if 0 < opts AND SecondOptional then optionals + 1 else optionals)
      in if 1 < optionals then Panic else Ok \<lparr>options = opts\<rparr>)"

text \<open>
  The last loop of \<open>normalizeFields\<close>: \<open>ps\<close> are the places still to visit with their
  indices, \<open>n\<close> the next token. Reading \<open>fields[n]\<close> out of range panics.
\<close>

fun populate ::
  "ParseOption \<Rightarrow> string list \<Rightarrow> (nat \<times> ParseOption) list \<Rightarrow> nat \<Rightarrow> string list \<Rightarrow>
   string list result" where
  "populate opts flds [] n expandedFields = Ok expandedFields"
| "populate opts flds ((i, place) # ps) n expandedFields =
     (if 0 < opts AND place
      then (if n < length flds
            then populate opts flds ps (Suc n) (expandedFields[i := flds ! n])
            else Panic)
      else populate opts flds ps n expandedFields)"

definition normalizeFields :: "string list \<Rightarrow> ParseOption \<Rightarrow> string list result" where
  "normalizeFields flds opts0 =
     (let (opts1, optionals1) =
            (if 0 < opts0 AND SecondOptional then (opts0 OR Second, 1) else (opts0, 0 :: int));
          (opts, optionals) =
            (if 0 < opts1 AND DowOptional then (opts1 OR Dow, optionals1 + 1)
             else (opts1, optionals1))
      in if 1 < optionals then Err MultipleOptionals
         else
           (let maxn = int (length (filter (\<lambda>place. 0 < opts AND place) places));
                minn = maxn - optionals;
                count = int (length flds)
            in if count < minn \<or> maxn < count
               then (if minn = maxn then Err (ExpectedExactly minn count flds)
                     else Err (ExpectedRange minn maxn count flds))
               else if minn < maxn \<and> int (length flds) = minn
               then (if 0 < opts AND DowOptional
                     then populate opts (flds @ [defaults ! 5]) (enumerate 0 places) 0 defaults
                     else if 0 < opts AND SecondOptional
                     then populate opts ([defaults ! 0] @ flds) (enumerate 0 places) 0 defaults
                     else Err UnknownOptional)
               else populate opts flds (enumerate 0 places) 0 defaults))"

section \<open>Schedules, descriptors and Parse\<close>

text \<open>
  Modelled from the spec: \<open>SpecSchedule\<close>, \<open>Every\<close> and the \<open>time\<close> package are outside
  parser.go. A compiled schedule is six masks and a location; \<open>EverySchedule d\<close> stands
  for the value \<open>Every(d)\<close>; a location is known by its name, a duration is a number of
  nanoseconds. \<open>time.LoadLocation\<close>, \<open>time.ParseDuration\<close> and \<open>time.Local\<close> are
  parameters, the two functions returning their error text on the left.
\<close>

type_synonym location = string

record SpecSchedule =
  s_Second :: u64
  s_Minute :: u64
  s_Hour :: u64
  s_Dom :: u64
  s_Month :: u64
  s_Dow :: u64
  s_Location :: location

datatype Schedule = Spec SpecSchedule | EverySchedule int

record env =
  LoadLocation :: "string \<Rightarrow> string + location"
  ParseDuration :: "string \<Rightarrow> string + int"
  Local :: location

definition parseDescriptor :: "env \<Rightarrow> string \<Rightarrow> location \<Rightarrow> Schedule result option" where
  "parseDescriptor e descriptor loc =
     (if descriptor = ''@yearly'' \<or> descriptor = ''@annually'' then
        do { w \<leftarrow> all_b dow;
             Some (Ok (Spec \<lparr>s_Second = push_bit (unat (min_b seconds)) 1,
                  s_Minute = push_bit (unat (min_b minutes)) 1,
                  s_Hour = push_bit (unat (min_b hours)) 1,
                  s_Dom = push_bit (unat (min_b dom)) 1,
                  s_Month = push_bit (unat (min_b months)) 1,
                  s_Dow = w, s_Location = loc\<rparr>)) }
      else if descriptor = ''@monthly'' then
        do { m \<leftarrow> all_b months; w \<leftarrow> all_b dow;
             Some (Ok (Spec \<lparr>s_Second = push_bit (unat (min_b seconds)) 1,
                  s_Minute = push_bit (unat (min_b minutes)) 1,
                  s_Hour = push_bit (unat (min_b hours)) 1,
                  s_Dom = push_bit (unat (min_b dom)) 1,
                  s_Month = m, s_Dow = w, s_Location = loc\<rparr>)) }
      else if descriptor = ''@weekly'' then
        do { d \<leftarrow> all_b dom; m \<leftarrow> all_b months;
             Some (Ok (Spec \<lparr>s_Second = push_bit (unat (min_b seconds)) 1,
                  s_Minute = push_bit (unat (min_b minutes)) 1,
                  s_Hour = push_bit (unat (min_b hours)) 1,
                  s_Dom = d, s_Month = m,
                  s_Dow = push_bit (unat (min_b dow)) 1, s_Location = loc\<rparr>)) }
      else if descriptor = ''@daily'' \<or> descriptor = ''@midnight'' then
        do { d \<leftarrow> all_b dom; m \<leftarrow> all_b months; w \<leftarrow> all_b dow;
             Some (Ok (Spec \<lparr>s_Second = push_bit (unat (min_b seconds)) 1,
                  s_Minute = push_bit (unat (min_b minutes)) 1,
                  s_Hour = push_bit (unat (min_b hours)) 1,
                  s_Dom = d, s_Month = m, s_Dow = w, s_Location = loc\<rparr>)) }
      else if descriptor = ''@hourly'' then
        do { h \<leftarrow> all_b hours; d \<leftarrow> all_b dom; m \<leftarrow> all_b months; w \<leftarrow> all_b dow;
             Some (Ok (Spec \<lparr>s_Second = push_bit (unat (min_b seconds)) 1,
                  s_Minute = push_bit (unat (min_b minutes)) 1,
                  s_Hour = h, s_Dom = d, s_Month = m, s_Dow = w, s_Location = loc\<rparr>)) }
      else if HasPrefix descriptor ''@every '' then
        (case ParseDuration e (drop (length ''@every '') descriptor) of
           Inl err \<Rightarrow> Some (Err (BadDuration descriptor err))
         | Inr duration \<Rightarrow> Some (Ok (EverySchedule duration)))
      else Some (Err (UnrecognizedDescriptor descriptor)))"

text \<open>The timezone prefix (lines 93 to 104): the location and the rest of the spec.\<close>

definition Parse_timezone :: "env \<Rightarrow> string \<Rightarrow> (location \<times> string) result" where
  "Parse_timezone e spec =
     (if HasPrefix spec ''TZ='' \<or> HasPrefix spec ''CRON_TZ='' then
        (let i = Index spec CHR '' ''; eq = Index spec CHR ''=''
         in case slice spec (eq + 1) i of
              None \<Rightarrow> Panic
            | Some name \<Rightarrow>
                (case LoadLocation e name of
                   Inl err \<Rightarrow> Err (BadLocation name err)
                 | Inr loc \<Rightarrow>
                     (case slice spec i (int (length spec)) of
                        None \<Rightarrow> Panic
                      | Some rest \<Rightarrow> Ok (loc, TrimSpace rest))))
      else Ok (Local e, spec))"

text \<open>
  The closure \<open>field\<close> of \<open>Parse\<close>: once \<open>err\<close> is set it returns 0 and leaves \<open>err\<close> as
  it is.
\<close>

definition field :: "error option \<Rightarrow> string \<Rightarrow> bounds \<Rightarrow> (u64 \<times> error option) option" where
  "field err f r = (if err \<noteq> None then Some (0, err) else getField f r)"

definition Parse_fields :: "location \<Rightarrow> string list \<Rightarrow> Schedule result option" where
  "Parse_fields loc flds =
     (if length flds < 6 then Some Panic
      else
        do { (second, e1) \<leftarrow> field None (flds ! 0) seconds;
             (minute, e2) \<leftarrow> field e1 (flds ! 1) minutes;
             (hour, e3) \<leftarrow> field e2 (flds ! 2) hours;
             (dayofmonth, e4) \<leftarrow> field e3 (flds ! 3) dom;
             (month, e5) \<leftarrow> field e4 (flds ! 4) months;
             (dayofweek, e6) \<leftarrow> field e5 (flds ! 5) dow;
             (case e6 of
                Some err \<Rightarrow> Some (Err err)
              | None \<Rightarrow>
                  Some (Ok (Spec \<lparr>s_Second = second, s_Minute = minute, s_Hour = hour,
                       s_Dom = dayofmonth, s_Month = month, s_Dow = dayofweek,
                       s_Location = loc\<rparr>))) })"

definition Parse :: "env \<Rightarrow> Parser \<Rightarrow> string \<Rightarrow> Schedule result option" where
  "Parse e p spec0 =
     (if length spec0 = 0 then Some (Err EmptySpec)
      else
        (case Parse_timezone e spec0 of
           Panic \<Rightarrow> Some Panic
         | Err err \<Rightarrow> Some (Err err)
         | Ok (loc, spec) \<Rightarrow>
             if HasPrefix spec ''@''
             then (if options p AND Descriptor = 0 then Some (Err (NoDescriptors spec))
                   else parseDescriptor e spec loc)
             else
               (case normalizeFields (Fields spec) (options p) of
                  Panic \<Rightarrow> Some Panic
                | Err err \<Rightarrow> Some (Err err)
                | Ok flds \<Rightarrow> Parse_fields loc flds)))"

definition standardParser :: "Parser result" where
  "standardParser = NewParser (Minute OR Hour OR Dom OR Month OR Dow OR Descriptor)"

definition ParseStandard :: "env \<Rightarrow> string \<Rightarrow> Schedule result option" where
  "ParseStandard e standardSpec =
     (case standardParser of
        Ok p \<Rightarrow> Parse e p standardSpec
      | Err err \<Rightarrow> Some (Err err)
      | Panic \<Rightarrow> Some Panic)"

section \<open>Notions the properties are stated with\<close>

text \<open>
  These notions state the properties below; they are not functions of parser.go.
  A sub-expression is starred when the first token of its range part is \<open>*\<close> or \<open>?\<close>
  and it has no step or the step 1.
\<close>

definition starred :: "string \<Rightarrow> bool" where
  "starred expr =
     (let rangeAndStep = Split expr CHR ''/'';
          first = hd (Split (hd rangeAndStep) CHR ''-'')
      in (first = ''*'' \<or> first = ''?'') \<and>
         (length rangeAndStep = 1 \<or>
          (length rangeAndStep = 2 \<and> mustParseInt (rangeAndStep ! 1) = Inr 1)))"

text \<open>
  A sub-expression is a plain wildcard when its range part is \<open>*\<close> or \<open>?\<close> itself and
  its step is absent or 1. A wildcard followed by a hyphen, as in \<open>*-5\<close>, is set apart:
  \<open>getRange\<close> does not look at what follows the hyphen there.
\<close>

definition wildcard_step1 :: "string \<Rightarrow> bool" where
  "wildcard_step1 expr =
     (let rangeAndStep = Split expr CHR ''/''
      in (hd rangeAndStep = ''*'' \<or> hd rangeAndStep = ''?'') \<and>
         (length rangeAndStep = 1 \<or>
          (length rangeAndStep = 2 \<and> mustParseInt (rangeAndStep ! 1) = Inr 1)))"

definition wildcard_with_hyphen :: "string \<Rightarrow> bool" where
  "wildcard_with_hyphen expr =
     (let lowAndHigh = Split (hd (Split expr CHR ''/'')) CHR ''-''
      in (hd lowAndHigh = ''*'' \<or> hd lowAndHigh = ''?'') \<and> 1 < length lowAndHigh)"

text \<open>A mask is within bounds when each of its bits is a value of the bounds or the
  wildcard bit.\<close>

definition within :: "bounds \<Rightarrow> u64 \<Rightarrow> bool" where
  "within r m =
     (\<forall>n \<in> {0..<64}. bit m n \<longrightarrow> unat (min_b r) \<le> n \<and> n \<le> unat (max_b r) \<or> n = 63)"

text \<open>A schedule is within bounds when each of its six masks is within the bounds of its
  field.\<close>

definition sched_within :: "SpecSchedule \<Rightarrow> bool" where
  "sched_within s \<longleftrightarrow> within seconds (s_Second s) \<and> within minutes (s_Minute s) \<and>
     within hours (s_Hour s) \<and> within dom (s_Dom s) \<and> within months (s_Month s) \<and>
     within dow (s_Dow s)"

section \<open>What getBits computes\<close>

lemma bit_exp_u64: "bit (2 ^ k :: u64) n \<longleftrightarrow> n = k \<and> n < 64"
  by (auto simp: bit_simps)

lemma stepped_unfold:
  fixes i s M n :: nat
  assumes "0 < s" "i \<le> M"
  shows "(n = i \<or> (i + s \<le> n \<and> n \<le> M \<and> s dvd (n - (i + s))))
         \<longleftrightarrow> (i \<le> n \<and> n \<le> M \<and> s dvd (n - i))"
proof
  assume "n = i \<or> (i + s \<le> n \<and> n \<le> M \<and> s dvd (n - (i + s)))"
  then show "i \<le> n \<and> n \<le> M \<and> s dvd (n - i)"
  proof
    assume "n = i" with assms show ?thesis by simp
  next
    assume h: "i + s \<le> n \<and> n \<le> M \<and> s dvd (n - (i + s))"
    then have "n - i = (n - (i + s)) + s" by arith
    then have eq: "n - i = (n - (i + s)) + s" .
    from h have "s dvd (n - (i + s)) + s" by (simp only: dvd_add_triv_right_iff)
    then have "s dvd (n - i)" by (simp only: eq)
    with h show ?thesis by simp
  qed
next
  assume h: "i \<le> n \<and> n \<le> M \<and> s dvd (n - i)"
  show "n = i \<or> (i + s \<le> n \<and> n \<le> M \<and> s dvd (n - (i + s)))"
  proof (cases "n = i")
    case True then show ?thesis by simp
  next
    case False
    with h have pos: "0 < n - i" by simp
    with h have "s \<le> n - i" by (simp add: dvd_imp_le)
    then have le: "i + s \<le> n" using h by arith
    have "n - (i + s) = (n - i) - s" by arith
    then have eq: "n - (i + s) = (n - i) - s" .
    from h have "s dvd (n - i)" by simp
    then have "s dvd (n - i) - s" by (rule dvd_diff_nat) simp
    then have "s dvd (n - (i + s))" by (simp only: eq)
    with le h show ?thesis by simp
  qed
qed

text \<open>
  When the step is not 0 and the counter cannot wrap around, the loop ends, and it adds
  to \<open>bits\<close> the positions \<open>i, i + step, ...\<close> up to \<open>maxv\<close> (those below 64).
\<close>

lemma getBits_loop_total:
  assumes "step \<noteq> 0" "unat maxv + unat step < 2 ^ 64"
  shows "\<exists>b. getBits_loop i maxv step bits = Some b \<and>
             (\<forall>n. bit b n \<longleftrightarrow> bit bits n \<or>
                    (n < 64 \<and> unat i \<le> n \<and> n \<le> unat maxv \<and> unat step dvd (n - unat i)))"
proof (induction "Suc (unat maxv) - unat i" arbitrary: i bits rule: less_induct)
  case less
  show ?case
  proof (cases "i \<le> maxv")
    case False
    then have "unat maxv < unat i" by (simp add: word_le_nat_alt)
    with False show ?thesis by (subst getBits_loop.simps) auto
  next
    case True
    then have le: "unat i \<le> unat maxv" by (simp add: word_le_nat_alt)
    have spos: "0 < unat step" using assms(1) by (simp add: unat_gt_0)
    have "unat i + unat step < 2 ^ 64" using le assms(2) by simp
    then have sum: "unat (i + step) = unat i + unat step"
      by (simp add: unat_add_lem [THEN iffD1])
    have "Suc (unat maxv) - unat (i + step) < Suc (unat maxv) - unat i"
      using le spos sum by simp
    from less [OF this, of "bits OR push_bit (unat i) 1"]
    obtain b where b: "getBits_loop (i + step) maxv step (bits OR push_bit (unat i) 1) = Some b"
      and bits: "\<And>n. bit b n \<longleftrightarrow> bit (bits OR push_bit (unat i) 1) n \<or>
                    (n < 64 \<and> unat (i + step) \<le> n \<and> n \<le> unat maxv \<and>
                     unat step dvd (n - unat (i + step)))"
      by blast
    have eq: "getBits_loop i maxv step bits = Some b"
      using True b by (subst getBits_loop.simps) simp
    have "bit b n \<longleftrightarrow> bit bits n \<or>
            (n < 64 \<and> unat i \<le> n \<and> n \<le> unat maxv \<and> unat step dvd (n - unat i))" for n
    proof -
      have new: "bit (bits OR push_bit (unat i) 1) n \<longleftrightarrow> bit bits n \<or> (n = unat i \<and> n < 64)"
        by (simp add: bit_or_iff bit_exp_u64)
      show ?thesis
        unfolding bits [of n] new sum
        using stepped_unfold [OF spos le, of n] by blast
    qed
    with eq show ?thesis by blast
  qed
qed

lemma getBits_total:
  assumes "step \<noteq> 0" "unat maxv + unat step < 2 ^ 64"
  shows "\<exists>b. getBits minv maxv step = Some b \<and>
             (\<forall>n. bit b n \<longleftrightarrow>
                    n < 64 \<and> unat minv \<le> n \<and> n \<le> unat maxv \<and> unat step dvd (n - unat minv))"
proof (cases "step = 1")
  case True
  with assms(2) have "unat maxv + 1 < 2 ^ 64" by simp
  then have suc: "unat (maxv + 1) = Suc (unat maxv)"
    using unat_add_lem [of maxv 1] by simp
  have "bit (NOT (push_bit (unat (maxv + 1)) (- 1)) AND push_bit (unat minv) (- 1) :: u64) n
          \<longleftrightarrow> n < 64 \<and> unat minv \<le> n \<and> n \<le> unat maxv" for n
    unfolding suc by (auto simp: bit_simps)
  with True show ?thesis by (simp add: getBits_def)
next
  case False
  with getBits_loop_total [OF assms, of minv 0] show ?thesis
    by (simp add: getBits_def)
qed

section \<open>Descriptors\<close>

text \<open>
  C7: with the standard parser, \<open>@weekly\<close> and the explicit spec \<open>0 0 * * 0\<close> give the same
  schedule, mask for mask and location for location: second, minute and hour hold the
  bit of their minimum, day of month and month hold their full range and the wildcard
  bit, day of week holds bit 0 alone, and the location is the local one.
\<close>

theorem weekly_equals_explicit:
  "ParseStandard e ''@weekly'' = ParseStandard e ''0 0 * * 0'' \<and>
   ParseStandard e ''@weekly'' =
     Some (Ok (Spec \<lparr>s_Second = 1, s_Minute = 1, s_Hour = 1,
       s_Dom = 0x80000000FFFFFFFE, s_Month = 0x8000000000001FFE, s_Dow = 1,
       s_Location = Local e\<rparr>))"
  by code_simp

section \<open>Splitting and integers\<close>

lemma Split_not_Nil: "Split s c \<noteq> []"
  by (induction s) auto

lemma Split_no_sep: "c \<notin> set s \<Longrightarrow> Split s c = [s]"
  by (induction s) auto

lemma Split_append: "c \<notin> set a \<Longrightarrow> Split (a @ c # b) c = a # Split b c"
  by (induction a) auto

lemma is_digit_not_slash: "is_digit x \<Longrightarrow> x \<noteq> CHR ''/''"
  by (auto simp: is_digit_def)

lemma Atoi_no_slash:
  assumes "Atoi t = Some v"
  shows "CHR ''/'' \<notin> set t"
proof (cases t)
  case Nil
  then show ?thesis by simp
next
  case (Cons x xs)
  show ?thesis
  proof (cases "x = CHR ''-'' \<or> x = CHR ''+''")
    case True
    with assms Cons have "list_all is_digit xs"
      by (auto simp: Atoi_def Let_def split: if_splits)
    with True Cons show ?thesis
      by (auto simp: list_all_iff dest: is_digit_not_slash)
  next
    case False
    with assms Cons have "list_all is_digit (x # xs)"
      by (auto simp: Atoi_def Let_def split: if_splits)
    with Cons show ?thesis
      by (auto simp: list_all_iff dest: is_digit_not_slash)
  qed
qed

lemma Atoi_range: "Atoi t = Some v \<Longrightarrow> - (2 ^ 63) \<le> v \<and> v < 2 ^ 63"
  by (auto simp: Atoi_def Let_def split: if_splits)

text \<open>A parsed number has no slash in its text and is below \<open>2 ^ 63\<close>.\<close>

lemma mustParseInt_Inr:
  assumes "mustParseInt t = Inr s"
  shows "CHR ''/'' \<notin> set t" and "unat s < 2 ^ 63"
proof -
  from assms obtain v where v: "Atoi t = Some v" "0 \<le> v" "s = word_of_int v"
    by (auto simp: mustParseInt_def split: option.splits if_splits)
  from v(1) show "CHR ''/'' \<notin> set t" by (rule Atoi_no_slash)
  from Atoi_range [OF v(1)] have "v < 2 ^ 63" by simp
  with v(2) have "unat (word_of_int v :: u64) = nat v"
    by (simp add: unat_eq_nat_uint uint_word_of_int take_bit_int_eq_self)
  with v \<open>v < 2 ^ 63\<close> show "unat s < 2 ^ 63" by (simp add: nat_less_iff)
qed

section \<open>What getRange computes\<close>

lemma word_gt_1_iff: "(s::u64) \<noteq> 0 \<Longrightarrow> 1 < s \<longleftrightarrow> s \<noteq> 1"
  using linorder_less_linear word_less_1 by blast

text \<open>
  Once the four checks pass, with a maximum and a step below \<open>2 ^ 63\<close>, \<open>getRange\<close>
  returns a mask: the extra bit and the stepped positions from start to end.
\<close>

lemma getRange_check_ok:
  assumes "min_b r \<le> start" "end \<le> max_b r" "start \<le> end" "step \<noteq> 0"
    and "unat (max_b r) < 2 ^ 63" "unat step < 2 ^ 63"
  shows "\<exists>m. getRange_check start end step extra expr r = Some (Inr m) \<and>
             (\<forall>n. bit m n \<longleftrightarrow> bit extra n \<or>
                (n < 64 \<and> unat start \<le> n \<and> n \<le> unat end \<and> unat step dvd (n - unat start)))"
proof -
  from assms(2) have "unat end \<le> unat (max_b r)" by (simp add: word_le_nat_alt)
  with assms(5,6) have "unat end + unat step < 2 ^ 64" by simp
  from getBits_total [OF assms(4) this, of start]
  obtain b where b: "getBits start end step = Some b"
    and bits: "\<And>n. bit b n \<longleftrightarrow>
        n < 64 \<and> unat start \<le> n \<and> n \<le> unat end \<and> unat step dvd (n - unat start)"
    by blast
  from assms(1-4) b have "getRange_check start end step extra expr r = Some (Inr (b OR extra))"
    by (simp add: getRange_check_def not_less)
  moreover have "bit (b OR extra) n \<longleftrightarrow> bit extra n \<or>
      (n < 64 \<and> unat start \<le> n \<and> n \<le> unat end \<and> unat step dvd (n - unat start))" for n
    by (auto simp: bit_or_iff bits)
  ultimately show ?thesis by blast
qed

text \<open>The step is below \<open>2 ^ 63\<close>, and the extra bit is the wildcard bit of a starred
  expression.\<close>

lemma getRange_resolve_step:
  assumes "getRange_resolve expr r = Inr (start, end, step, extra)"
  shows "unat step < 2 ^ 63"
    and "step \<noteq> 0 \<Longrightarrow> extra = (if starred expr then starBit else 0)"
proof -
  let ?rs = "Split expr CHR ''/''"
  let ?lh = "Split (hd ?rs) CHR ''-''"
  from assms obtain s0 e0 x0 where ends: "getRange_ends ?lh expr r = Inr (s0, e0, x0)"
    by (auto simp: getRange_resolve_def Let_def split: sum.splits)
  have x0: "x0 = (if hd ?lh = ''*'' \<or> hd ?lh = ''?'' then starBit else 0)"
    using ends by (auto simp: getRange_ends_def split: if_splits sum.splits)
  consider (one) "length ?rs = 1" | (two) "length ?rs = 2"
    | (many) "length ?rs \<noteq> 1" "length ?rs \<noteq> 2"
    by blast
  then have "unat step < 2 ^ 63 \<and>
    (step \<noteq> 0 \<longrightarrow> extra = (if starred expr then starBit else 0))"
  proof cases
    case one
    with assms ends have "step = 1" "extra = x0"
      by (auto simp: getRange_resolve_def Let_def)
    with one x0 show ?thesis by (simp add: starred_def Let_def)
  next
    case two
    with assms ends obtain s where s: "mustParseInt (?rs ! 1) = Inr s" "step = s"
      "extra = (if 1 < s then 0 else x0)"
      by (auto simp: getRange_resolve_def Let_def split: sum.splits)
    have "unat step < 2 ^ 63" using s mustParseInt_Inr(2) by blast
    moreover have "extra = (if starred expr then starBit else 0)" if "step \<noteq> 0"
    proof -
      have "1 < s \<longleftrightarrow> s \<noteq> 1" using that s(2) word_gt_1_iff by blast
      with s two x0 show ?thesis by (auto simp: starred_def Let_def)
    qed
    ultimately show ?thesis by blast
  next
    case many
    with assms ends show ?thesis by (auto simp: getRange_resolve_def Let_def)
  qed
  then show "unat step < 2 ^ 63"
    and "step \<noteq> 0 \<Longrightarrow> extra = (if starred expr then starBit else 0)" by blast+
qed

lemma getRange_resolve_value_step:
  assumes "CHR ''/'' \<notin> set nt" "CHR ''-'' \<notin> set nt" "nt \<noteq> ''*''" "nt \<noteq> ''?''"
    and "parseIntOrName nt (names r) = Inr N" "mustParseInt st = Inr s"
  shows "getRange_resolve (nt @ CHR ''/'' # st) r = Inr (N, max_b r, s, 0)"
proof -
  from assms(6) have "CHR ''/'' \<notin> set st" by (rule mustParseInt_Inr)
  with assms(1) have sp: "Split (nt @ CHR ''/'' # st) CHR ''/'' = [nt, st]"
    by (simp add: Split_append Split_no_sep)
  from assms(2) have lh: "Split nt CHR ''-'' = [nt]" by (rule Split_no_sep)
  show ?thesis
    unfolding getRange_resolve_def sp
    using assms(3-6) by (simp add: lh getRange_ends_def)
qed

lemma getRange_resolve_star_step:
  assumes "w = ''*'' \<or> w = ''?''" "mustParseInt st = Inr s"
  shows "getRange_resolve (w @ CHR ''/'' # st) r =
           Inr (min_b r, max_b r, s, if 1 < s then 0 else starBit)"
proof -
  from assms(2) have "CHR ''/'' \<notin> set st" by (rule mustParseInt_Inr)
  with assms(1) have sp: "Split (w @ CHR ''/'' # st) CHR ''/'' = [w, st]"
    by (auto simp: Split_no_sep)
  from assms(1) have lh: "Split w CHR ''-'' = [w]" by auto
  show ?thesis
    unfolding getRange_resolve_def sp
    using assms by (auto simp add: lh getRange_ends_def)
qed

text \<open>
  C3: a sub-expression \<open>N/s\<close>, where \<open>N\<close> is one value (no hyphen, not a wildcard)
  within the bounds and \<open>s\<close> a step of at least 1, compiles to the positions
  \<open>N, N + s, ...\<close> up to the field's maximum and nothing else. So \<open>5/15\<close> against the
  minutes gives exactly the bits 5, 20, 35 and 50, with the wildcard bit clear.
\<close>

theorem value_step_to_maximum:
  "(CHR ''/'' \<notin> set nt \<and> CHR ''-'' \<notin> set nt \<and> nt \<noteq> ''*'' \<and> nt \<noteq> ''?'' \<and>
    parseIntOrName nt (names r) = Inr N \<and> mustParseInt st = Inr s \<and> s \<noteq> 0 \<and>
    min_b r \<le> N \<and> N \<le> max_b r \<and> unat (max_b r) < 63
    \<longrightarrow> (\<exists>m. getRange (nt @ ''/'' @ st) r = Some (Inr m) \<and>
           (\<forall>n. bit m n \<longleftrightarrow>
              unat N \<le> n \<and> n \<le> unat (max_b r) \<and> unat s dvd (n - unat N))))
   \<and> getRange ''5/15'' minutes = Some (Inr (2 ^ 5 + 2 ^ 20 + 2 ^ 35 + 2 ^ 50))
   \<and> \<not> bit (2 ^ 5 + 2 ^ 20 + 2 ^ 35 + 2 ^ 50 :: u64) 63"
proof (intro conjI impI)
  assume h: "CHR ''/'' \<notin> set nt \<and> CHR ''-'' \<notin> set nt \<and> nt \<noteq> ''*'' \<and> nt \<noteq> ''?'' \<and>
    parseIntOrName nt (names r) = Inr N \<and> mustParseInt st = Inr s \<and> s \<noteq> 0 \<and>
    min_b r \<le> N \<and> N \<le> max_b r \<and> unat (max_b r) < 63"
  then have res: "getRange_resolve (nt @ CHR ''/'' # st) r = Inr (N, max_b r, s, 0)"
    by (intro getRange_resolve_value_step) simp_all
  from h have s63: "unat s < 2 ^ 63" by (intro mustParseInt_Inr(2) [of st]) simp
  from h have m63: "unat (max_b r) < 2 ^ 63" by simp
  from h getRange_check_ok [of r N "max_b r" s 0 "nt @ CHR ''/'' # st", OF _ _ _ _ m63 s63]
  obtain m where m: "getRange_check N (max_b r) s 0 (nt @ CHR ''/'' # st) r = Some (Inr m)"
    and bits: "\<And>n. bit m n \<longleftrightarrow> bit (0::u64) n \<or>
        (n < 64 \<and> unat N \<le> n \<and> n \<le> unat (max_b r) \<and> unat s dvd (n - unat N))"
    by auto
  have "getRange (nt @ ''/'' @ st) r = Some (Inr m)"
    by (simp add: getRange_def res m)
  moreover have "bit m n \<longleftrightarrow> unat N \<le> n \<and> n \<le> unat (max_b r) \<and> unat s dvd (n - unat N)"
    for n
    using h by (auto simp: bits)
  ultimately show "\<exists>m. getRange (nt @ ''/'' @ st) r = Some (Inr m) \<and>
           (\<forall>n. bit m n \<longleftrightarrow>
              unat N \<le> n \<and> n \<le> unat (max_b r) \<and> unat s dvd (n - unat N))"
    by blast
next
  show "getRange ''5/15'' minutes = Some (Inr (2 ^ 5 + 2 ^ 20 + 2 ^ 35 + 2 ^ 50))"
    by code_simp
next
  show "\<not> bit (2 ^ 5 + 2 ^ 20 + 2 ^ 35 + 2 ^ 50 :: u64) 63"
    by code_simp
qed

theorem value_step_to_maximum_witness:
  "\<exists>m. getRange ''5/15'' minutes = Some (Inr m) \<and>
       (\<forall>n. bit m n \<longleftrightarrow> 5 \<le> n \<and> n \<le> 59 \<and> 15 dvd (n - 5))"
proof -
  have "CHR ''/'' \<notin> set ''5'' \<and> CHR ''-'' \<notin> set ''5'' \<and> ''5'' \<noteq> ''*'' \<and> ''5'' \<noteq> ''?'' \<and>
    parseIntOrName ''5'' (names minutes) = Inr 5 \<and> mustParseInt ''15'' = Inr 15 \<and>
    (15 :: u64) \<noteq> 0 \<and> min_b minutes \<le> 5 \<and> 5 \<le> max_b minutes \<and> unat (max_b minutes) < 63"
    by (simp add: parseIntOrName_def minutes_def mustParseInt_def Atoi_def is_digit_def
        digits_value_def)
  from value_step_to_maximum [of "''5''" minutes 5 "''15''" 15, THEN conjunct1, THEN mp, OF this]
  show ?thesis by (simp add: minutes_def)
qed

lemma bit_starBit: "bit starBit n \<longleftrightarrow> n = 63"
  using bit_exp_u64 [of 63 n] by (auto simp: starBit_def)

section \<open>A wildcard with a step\<close>

text \<open>
  C1, as stated, fails: \<open>*/2\<close> against the minutes gives the even positions up to 58
  and leaves the wildcard bit clear.
\<close>

theorem star_step_counterexample:
  "getRange ''*/2'' minutes = Some (Inr 0x0555555555555555) \<and>
   \<not> bit (0x0555555555555555 :: u64) 63"
  by code_simp

text \<open>
  C1, amended: for bounds with \<open>min \<le> max < 63\<close> and a step \<open>s\<close> of at least 1, the
  sub-expression \<open>*/s\<close> (or \<open>?/s\<close>) compiles to a mask whose numeric bits are those of
  \<open>min..max\<close> stepped by \<open>s\<close>, and whose wildcard bit (bit 63) is set exactly when
  \<open>s = 1\<close>: a step above 1 clears it.
\<close>

theorem star_step_wildcard_bit:
  "(w = ''*'' \<or> w = ''?'') \<and> mustParseInt st = Inr s \<and> s \<noteq> 0 \<and>
   min_b r \<le> max_b r \<and> unat (max_b r) < 63
   \<longrightarrow> (\<exists>m. getRange (w @ ''/'' @ st) r = Some (Inr m) \<and>
          (\<forall>n. n \<noteq> 63 \<longrightarrow>
             (bit m n \<longleftrightarrow> unat (min_b r) \<le> n \<and> n \<le> unat (max_b r) \<and>
                           unat s dvd (n - unat (min_b r)))) \<and>
          (bit m 63 \<longleftrightarrow> s = 1))"
proof
  assume h: "(w = ''*'' \<or> w = ''?'') \<and> mustParseInt st = Inr s \<and> s \<noteq> 0 \<and>
   min_b r \<le> max_b r \<and> unat (max_b r) < 63"
  let ?extra = "if 1 < s then 0 else starBit"
  let ?expr = "w @ CHR ''/'' # st"
  from h have res: "getRange_resolve ?expr r = Inr (min_b r, max_b r, s, ?extra)"
    by (intro getRange_resolve_star_step) simp_all
  from h have s63: "unat s < 2 ^ 63" by (intro mustParseInt_Inr(2) [of st]) simp
  from h have m63: "unat (max_b r) < 2 ^ 63" by simp
  from h getRange_check_ok [of r "min_b r" "max_b r" s ?extra ?expr, OF _ _ _ _ m63 s63]
  obtain m where m: "getRange_check (min_b r) (max_b r) s ?extra ?expr r = Some (Inr m)"
    and bits: "\<And>n. bit m n \<longleftrightarrow> bit ?extra n \<or>
        (n < 64 \<and> unat (min_b r) \<le> n \<and> n \<le> unat (max_b r) \<and>
         unat s dvd (n - unat (min_b r)))"
    by auto
  have one: "1 < s \<longleftrightarrow> s \<noteq> 1" using h word_gt_1_iff by blast
  have "getRange (w @ ''/'' @ st) r = Some (Inr m)"
    by (simp add: getRange_def res m)
  moreover have "bit m n \<longleftrightarrow> unat (min_b r) \<le> n \<and> n \<le> unat (max_b r) \<and>
      unat s dvd (n - unat (min_b r))" if "n \<noteq> 63" for n
    using h that by (auto simp: bits bit_starBit)
  moreover have "bit m 63 \<longleftrightarrow> s = 1"
    using h one by (auto simp: bits bit_starBit)
  ultimately show "\<exists>m. getRange (w @ ''/'' @ st) r = Some (Inr m) \<and>
          (\<forall>n. n \<noteq> 63 \<longrightarrow>
             (bit m n \<longleftrightarrow> unat (min_b r) \<le> n \<and> n \<le> unat (max_b r) \<and>
                           unat s dvd (n - unat (min_b r)))) \<and>
          (bit m 63 \<longleftrightarrow> s = 1)"
    by blast
qed

theorem star_step_wildcard_bit_witness:
  "\<exists>m. getRange ''*/1'' minutes = Some (Inr m) \<and>
       (\<forall>n. n \<noteq> 63 \<longrightarrow> (bit m n \<longleftrightarrow> n \<le> 59)) \<and> bit m 63"
proof -
  have "(''*'' = ''*'' \<or> ''*'' = ''?'') \<and> mustParseInt ''1'' = Inr 1 \<and> (1 :: u64) \<noteq> 0 \<and>
    min_b minutes \<le> max_b minutes \<and> unat (max_b minutes) < 63"
    by (simp add: minutes_def mustParseInt_def Atoi_def is_digit_def digits_value_def)
  from star_step_wildcard_bit [of "''*''" "''1''" 1 minutes, THEN mp, OF this]
  show ?thesis by (simp add: minutes_def)
qed

section \<open>Hyphens\<close>

text \<open>
  C4, as stated, fails twice: with an unreadable first token the error is that of the
  token, not the one about hyphens; and behind a wildcard the hyphens are never counted,
  so \<open>*-1-2\<close> compiles to the full range with the wildcard bit.
\<close>

theorem hyphens_counterexample:
  "getRange ''a-1-2'' minutes = Some (Inl (ParseIntFailed ''a'')) \<and>
   getRange ''*-1-2'' minutes = Some (Inr 0x8FFFFFFFFFFFFFFF)"
  by code_simp

text \<open>
  C4, amended: when the range part of a sub-expression has more than one hyphen and
  its first token is neither \<open>*\<close> nor \<open>?\<close>, \<open>getRange\<close> returns an error and no mask: the
  error of the first token when that token does not resolve, "too many hyphens"
  otherwise.
\<close>

theorem too_many_hyphens:
  "2 < length (Split (hd (Split expr CHR ''/'')) CHR ''-'') \<and>
   hd (Split (hd (Split expr CHR ''/'')) CHR ''-'') \<noteq> ''*'' \<and>
   hd (Split (hd (Split expr CHR ''/'')) CHR ''-'') \<noteq> ''?''
   \<longrightarrow> (case parseIntOrName (hd (Split (hd (Split expr CHR ''/'')) CHR ''-'')) (names r) of
          Inl err \<Rightarrow> getRange expr r = Some (Inl err)
        | Inr start \<Rightarrow> getRange expr r = Some (Inl (TooManyHyphens expr)))"
  by (auto simp: getRange_def getRange_resolve_def getRange_ends_def Let_def split: sum.splits)

theorem too_many_hyphens_witness:
  "getRange ''1-2-3'' minutes = Some (Inl (TooManyHyphens ''1-2-3''))"
proof -
  have "2 < length (Split (hd (Split ''1-2-3'' CHR ''/'')) CHR ''-'') \<and>
   hd (Split (hd (Split ''1-2-3'' CHR ''/'')) CHR ''-'') \<noteq> ''*'' \<and>
   hd (Split (hd (Split ''1-2-3'' CHR ''/'')) CHR ''-'') \<noteq> ''?''"
    by simp
  from too_many_hyphens [of "''1-2-3''" minutes, THEN mp, OF this]
  show ?thesis
    by (simp add: parseIntOrName_def minutes_def mustParseInt_def Atoi_def is_digit_def
        digits_value_def)
qed

section \<open>The four checks of getRange\<close>



section \<open>Masks of accepted expressions\<close>

lemma within_iff:
  "within r m \<longleftrightarrow> (\<forall>n. bit m n \<longrightarrow> unat (min_b r) \<le> n \<and> n \<le> unat (max_b r) \<or> n = 63)"
proof -
  have "bit m n \<Longrightarrow> n < 64" for n
    using bit_imp_le_length [of m n] by simp
  then show ?thesis unfolding within_def by auto
qed

lemma getRange_Inr_bits:
  assumes "getRange expr r = Some (Inr m)" "unat (max_b r) < 2 ^ 63"
  shows "\<exists>start end step :: u64. min_b r \<le> start \<and> end \<le> max_b r \<and> start \<le> end \<and>
      step \<noteq> 0 \<and>
      (\<forall>n. bit m n \<longleftrightarrow> (starred expr \<and> n = 63) \<or>
        (n < 64 \<and> unat start \<le> n \<and> n \<le> unat end \<and> unat step dvd (n - unat start)))"
proof -
  from assms(1) obtain start "end" step extra
    where res: "getRange_resolve expr r = Inr (start, end, step, extra)"
    by (auto simp: getRange_def split: sum.splits)
  then have gr: "getRange expr r = getRange_check start end step extra expr r"
    by (simp add: getRange_def)
  with assms(1) have ok: "min_b r \<le> start" "end \<le> max_b r" "start \<le> end" "step \<noteq> 0"
    by (auto simp: getRange_check_def not_less split: if_splits)
  from getRange_check_ok [OF ok assms(2) getRange_resolve_step(1) [OF res], of extra expr]
    assms(1) gr
  have bits: "\<forall>n. bit m n \<longleftrightarrow> bit extra n \<or>
      (n < 64 \<and> unat start \<le> n \<and> n \<le> unat end \<and> unat step dvd (n - unat start))"
    by auto
  have "bit extra n \<longleftrightarrow> starred expr \<and> n = 63" for n
    using getRange_resolve_step(2) [OF res ok(4)] by (simp add: bit_starBit)
  with bits have "\<forall>n. bit m n \<longleftrightarrow> (starred expr \<and> n = 63) \<or>
      (n < 64 \<and> unat start \<le> n \<and> n \<le> unat end \<and> unat step dvd (n - unat start))"
    by simp
  with ok show ?thesis by blast
qed

lemma getRange_within:
  assumes "getRange expr r = Some (Inr m)" "unat (max_b r) < 2 ^ 63"
  shows "within r m"
proof -
  from getRange_Inr_bits [OF assms] obtain start "end" step :: u64
    where ok: "min_b r \<le> start" "end \<le> max_b r"
      and bits: "\<forall>n. bit m n \<longleftrightarrow> (starred expr \<and> n = 63) \<or>
              (n < 64 \<and> unat start \<le> n \<and> n \<le> unat end \<and> unat step dvd (n - unat start))"
    by blast
  from ok have "unat (min_b r) \<le> unat start" "unat end \<le> unat (max_b r)"
    by (simp_all add: word_le_nat_alt)
  then show ?thesis unfolding within_iff using bits by auto
qed

lemma getRange_wildcard:
  assumes "getRange expr r = Some (Inr m)" "unat (max_b r) < 63"
  shows "bit m 63 \<longleftrightarrow> starred expr"
proof -
  from assms(2) have "unat (max_b r) < 2 ^ 63" by simp
  from getRange_Inr_bits [OF assms(1) this] obtain start "end" step :: u64
    where ok: "end \<le> max_b r"
      and bits: "\<forall>n. bit m n \<longleftrightarrow> (starred expr \<and> n = 63) \<or>
              (n < 64 \<and> unat start \<le> n \<and> n \<le> unat end \<and> unat step dvd (n - unat start))"
    by blast
  from ok assms(2) have "unat end < 63" by (simp add: word_le_nat_alt)
  then show ?thesis using bits by auto
qed

lemma within_OR: "within r a \<Longrightarrow> within r b \<Longrightarrow> within r (a OR b)"
  by (auto simp: within_iff bit_or_iff)

lemma getField_loop_within:
  assumes "getField_loop es r bits = Some (m, None)" "unat (max_b r) < 2 ^ 63" "within r bits"
  shows "within r m"
  using assms
proof (induction es arbitrary: bits)
  case Nil
  then show ?case by simp
next
  case (Cons e es)
  from Cons.prems(1) obtain b where b: "getRange e r = Some (Inr b)"
    and rest: "getField_loop es r (bits OR b) = Some (m, None)"
    by (auto split: option.splits sum.splits)
  from getRange_within [OF b Cons.prems(2)] Cons.prems(3) have "within r (bits OR b)"
    by (simp add: within_OR)
  from Cons.IH [OF rest Cons.prems(2) this] show ?case .
qed

lemma getField_loop_wildcard:
  assumes "getField_loop es r bits = Some (m, None)" "unat (max_b r) < 63"
  shows "bit m 63 \<longleftrightarrow> bit bits 63 \<or> (\<exists>e \<in> set es. starred e)"
  using assms
proof (induction es arbitrary: bits)
  case Nil
  then show ?case by simp
next
  case (Cons e es)
  from Cons.prems(1) obtain b where b: "getRange e r = Some (Inr b)"
    and rest: "getField_loop es r (bits OR b) = Some (m, None)"
    by (auto split: option.splits sum.splits)
  from Cons.IH [OF rest Cons.prems(2)] getRange_wildcard [OF b Cons.prems(2)]
  show ?case by (auto simp: bit_or_iff)
qed

lemma within_zero: "within r 0"
  by (simp add: within_iff)

lemma getField_within:
  assumes "getField fld r = Some (m, None)" "unat (max_b r) < 2 ^ 63"
  shows "within r m"
  using assms getField_loop_within [OF _ _ within_zero] by (simp add: getField_def)

lemma getField_wildcard:
  assumes "getField fld r = Some (m, None)" "unat (max_b r) < 63"
  shows "bit m 63 \<longleftrightarrow> (\<exists>e \<in> set (FieldsFunc fld (\<lambda>c. c = CHR '','')). starred e)"
  using getField_loop_wildcard [of _ r 0 m] assms by (simp add: getField_def)

lemma all_b_within:
  assumes "unat (max_b r) < 2 ^ 63"
  shows "\<exists>m. all_b r = Some m \<and> within r m \<and> bit m 63"
proof -
  have "(1::u64) \<noteq> 0" by simp
  moreover from assms have "unat (max_b r) + unat (1::u64) < 2 ^ 64" by simp
  ultimately obtain b where b: "getBits (min_b r) (max_b r) 1 = Some b"
    and bits: "\<forall>n. bit b n \<longleftrightarrow>
        n < 64 \<and> unat (min_b r) \<le> n \<and> n \<le> unat (max_b r) \<and> unat (1::u64) dvd (n - unat (min_b r))"
    using getBits_total [of 1 "max_b r" "min_b r"] by blast
  have "all_b r = Some (b OR starBit)" by (simp add: all_b_def b)
  moreover have "within r (b OR starBit)"
    unfolding within_iff using bits by (auto simp: bit_or_iff bit_starBit)
  moreover have "bit (b OR starBit) 63" by (simp add: bit_or_iff bit_starBit)
  ultimately show ?thesis by blast
qed

lemma min_bit_within:
  assumes "min_b r \<le> max_b r"
  shows "within r (push_bit (unat (min_b r)) 1)"
proof -
  from assms have "unat (min_b r) \<le> unat (max_b r)" by (simp add: word_le_nat_alt)
  then show ?thesis unfolding within_iff by (auto simp: bit_exp_u64)
qed

lemma bounds_facts:
  "unat (max_b seconds) < 2 ^ 63" "unat (max_b minutes) < 2 ^ 63" "unat (max_b hours) < 2 ^ 63"
  "unat (max_b dom) < 2 ^ 63" "unat (max_b months) < 2 ^ 63" "unat (max_b dow) < 2 ^ 63"
  "min_b seconds \<le> max_b seconds" "min_b minutes \<le> max_b minutes" "min_b hours \<le> max_b hours"
  "min_b dom \<le> max_b dom" "min_b months \<le> max_b months" "min_b dow \<le> max_b dow"
  by (simp_all add: seconds_def minutes_def hours_def dom_def months_def dow_def)

lemma parseDescriptor_within:
  assumes "parseDescriptor e d loc = Some (Ok (Spec s))"
  shows "sched_within s"
proof -
  from all_b_within [OF bounds_facts(3)] obtain h
    where h: "all_b hours = Some h" "within hours h" by blast
  from all_b_within [OF bounds_facts(4)] obtain dm
    where dm: "all_b dom = Some dm" "within dom dm" by blast
  from all_b_within [OF bounds_facts(5)] obtain mo
    where mo: "all_b months = Some mo" "within months mo" by blast
  from all_b_within [OF bounds_facts(6)] obtain dw
    where dw: "all_b dow = Some dw" "within dow dw" by blast
  note mb = bounds_facts(7-12) [THEN min_bit_within]
  let ?b = "\<lambda>r. push_bit (unat (min_b r)) (1::u64)"
  let ?S = "\<lambda>hr d m w. \<lparr>s_Second = ?b seconds, s_Minute = ?b minutes, s_Hour = hr,
     s_Dom = d, s_Month = m, s_Dow = w, s_Location = loc\<rparr>"
  have shape: "parseDescriptor e d loc = Some (Ok (Spec (?S (?b hours) (?b dom) (?b months) dw))) \<or>
     parseDescriptor e d loc = Some (Ok (Spec (?S (?b hours) (?b dom) mo dw))) \<or>
     parseDescriptor e d loc = Some (Ok (Spec (?S (?b hours) dm mo (?b dow)))) \<or>
     parseDescriptor e d loc = Some (Ok (Spec (?S (?b hours) dm mo dw))) \<or>
     parseDescriptor e d loc = Some (Ok (Spec (?S h dm mo dw))) \<or>
     (\<forall>s. parseDescriptor e d loc \<noteq> Some (Ok (Spec s)))"
    unfolding parseDescriptor_def h dm mo dw bind.bind_lunit
    by (simp split: sum.splits)
  have ok: "sched_within (?S hr d m w)"
    if "within hours hr" "within dom d" "within months m" "within dow w" for hr d m w
    using that mb by (simp add: sched_within_def)
  from shape assms consider
      "s = ?S (?b hours) (?b dom) (?b months) dw" | "s = ?S (?b hours) (?b dom) mo dw"
    | "s = ?S (?b hours) dm mo (?b dow)" | "s = ?S (?b hours) dm mo dw" | "s = ?S h dm mo dw"
    by fastforce
  then show ?thesis
    using ok h dm mo dw mb by cases simp_all
qed

lemma field_None:
  assumes "field err f r = Some (m, None)"
  shows "err = None \<and> getField f r = Some (m, None)"
  using assms by (auto simp: field_def split: if_splits)

lemma field_Some:
  assumes "field (Some x) f r = Some (m, err)"
  shows "err = Some x"
  using assms by (auto simp: field_def)

lemma Parse_fields_within:
  assumes "Parse_fields loc flds = Some (Ok (Spec s))"
  shows "sched_within s"
proof -
  from assms obtain m0 e1 m1 e2 m2 e3 m3 e4 m4 e5 m5 where
    f: "field None (flds ! 0) seconds = Some (m0, e1)"
       "field e1 (flds ! 1) minutes = Some (m1, e2)"
       "field e2 (flds ! 2) hours = Some (m2, e3)"
       "field e3 (flds ! 3) dom = Some (m3, e4)"
       "field e4 (flds ! 4) months = Some (m4, e5)"
       "field e5 (flds ! 5) dow = Some (m5, None)"
    and s: "s = \<lparr>s_Second = m0, s_Minute = m1, s_Hour = m2, s_Dom = m3, s_Month = m4,
                 s_Dow = m5, s_Location = loc\<rparr>"
    by (auto simp: Parse_fields_def bind_eq_Some_conv split: if_splits option.splits)
  from field_None [OF f(6)] have e5: "e5 = None" and g5: "getField (flds ! 5) dow = Some (m5, None)"
    by simp_all
  from f(5) e5 field_None have e4: "e4 = None" and g4: "getField (flds ! 4) months = Some (m4, None)"
    by blast+
  from f(4) e4 field_None have e3: "e3 = None" and g3: "getField (flds ! 3) dom = Some (m3, None)"
    by blast+
  from f(3) e3 field_None have e2: "e2 = None" and g2: "getField (flds ! 2) hours = Some (m2, None)"
    by blast+
  from f(2) e2 field_None have e1: "e1 = None" and g1: "getField (flds ! 1) minutes = Some (m1, None)"
    by blast+
  from f(1) e1 field_None have g0: "getField (flds ! 0) seconds = Some (m0, None)"
    by blast
  show ?thesis
    unfolding sched_within_def s
    using getField_within [OF g0 bounds_facts(1)] getField_within [OF g1 bounds_facts(2)]
      getField_within [OF g2 bounds_facts(3)] getField_within [OF g3 bounds_facts(4)]
      getField_within [OF g4 bounds_facts(5)] getField_within [OF g5 bounds_facts(6)]
    by simp
qed

text \<open>
  C8: a mask that \<open>getField\<close> returns without error, against bounds whose maximum is
  below \<open>2 ^ 63\<close>, has bits only at values of the bounds or at the wildcard position 63;
  and so has each of the six masks of every schedule that \<open>Parse\<close> returns, from a
  descriptor or from fields.
\<close>

theorem masks_within_bounds:
  "(unat (max_b r) < 2 ^ 63 \<and> getField fld r = Some (m, None) \<longrightarrow> within r m) \<and>
   (Parse e p spec = Some (Ok (Spec s)) \<longrightarrow> sched_within s)"
proof (intro conjI impI)
  assume "unat (max_b r) < 2 ^ 63 \<and> getField fld r = Some (m, None)"
  then show "within r m" using getField_within by blast
next
  assume a: "Parse e p spec = Some (Ok (Spec s))"
  then obtain loc sp where tz: "Parse_timezone e spec = Ok (loc, sp)"
    by (auto simp: Parse_def split: if_splits result.splits)
  show "sched_within s"
  proof (cases "HasPrefix sp ''@''")
    case True
    with a tz have "parseDescriptor e sp loc = Some (Ok (Spec s))"
      by (auto simp: Parse_def split: if_splits)
    then show ?thesis by (rule parseDescriptor_within)
  next
    case False
    with a tz obtain flds where "Parse_fields loc flds = Some (Ok (Spec s))"
      by (auto simp: Parse_def split: if_splits result.splits)
    then show ?thesis by (rule Parse_fields_within)
  qed
qed

theorem masks_within_bounds_witness:
  "within minutes (2 ^ 5 + 2 ^ 20 + 2 ^ 35 + 2 ^ 50) \<and>
   sched_within \<lparr>s_Second = 1, s_Minute = 1, s_Hour = 1, s_Dom = 0x80000000FFFFFFFE,
     s_Month = 0x8000000000001FFE, s_Dow = 1, s_Location = ''Local''\<rparr>"
proof -
  let ?e = "\<lparr>LoadLocation = \<lambda>n. Inl ''unknown time zone'',
    ParseDuration = \<lambda>d. Inl ''invalid duration'', Local = ''Local''\<rparr>"
  let ?p = "\<lparr>options = Minute OR Hour OR Dom OR Month OR Dow OR Descriptor\<rparr>"
  let ?s = "\<lparr>s_Second = 1, s_Minute = 1, s_Hour = 1, s_Dom = 0x80000000FFFFFFFE,
     s_Month = 0x8000000000001FFE, s_Dow = 1, s_Location = ''Local''\<rparr>"
  have "getField ''5/15'' minutes = Some (2 ^ 5 + 2 ^ 20 + 2 ^ 35 + 2 ^ 50, None)"
    by code_simp
  moreover have "unat (max_b minutes) < 2 ^ 63" by (simp add: minutes_def)
  ultimately have g: "unat (max_b minutes) < 2 ^ 63 \<and>
      getField ''5/15'' minutes = Some (2 ^ 5 + 2 ^ 20 + 2 ^ 35 + 2 ^ 50, None)"
    by blast
  have p: "Parse ?e ?p ''0 0 * * 0'' = Some (Ok (Spec ?s))"
    by code_simp
  from masks_within_bounds [of minutes "''5/15''" "2 ^ 5 + 2 ^ 20 + 2 ^ 35 + 2 ^ 50" ?e ?p
      "''0 0 * * 0''" ?s]
  show ?thesis using g p by blast
qed

section \<open>The wildcard bit of a field\<close>

text \<open>
  C2, as stated, fails: \<open>*/1\<close> and \<open>*,5\<close> are not exactly \<open>*\<close>, and both compile, against
  the minutes, to the full range with the wildcard bit set.
\<close>

theorem wildcard_iff_counterexample:
  "getField ''*/1'' minutes = Some (0x8FFFFFFFFFFFFFFF, None) \<and>
   getField ''*,5'' minutes = Some (0x8FFFFFFFFFFFFFFF, None) \<and>
   bit (0x8FFFFFFFFFFFFFFF :: u64) 63"
  by code_simp

lemma Split_single: "length (Split s c) = 1 \<Longrightarrow> Split s c = [s]"
proof (induction s)
  case Nil
  then show ?case by simp
next
  case (Cons a s)
  have ne: "Split s c \<noteq> []" by (rule Split_not_Nil)
  show ?case
  proof (cases "a = c")
    case True
    with Cons.prems ne show ?thesis by simp
  next
    case False
    with Cons.prems ne have "length (Split s c) = 1" by (cases "Split s c") simp_all
    with Cons.IH have "Split s c = [s]" by simp
    with False show ?thesis by simp
  qed
qed

lemma starred_wildcard_step1:
  assumes "\<not> wildcard_with_hyphen expr"
  shows "starred expr \<longleftrightarrow> wildcard_step1 expr"
proof -
  let ?rp = "hd (Split expr CHR ''/'')"
  let ?lh = "Split ?rp CHR ''-''"
  have "hd ?lh = ''*'' \<or> hd ?lh = ''?'' \<longleftrightarrow> ?rp = ''*'' \<or> ?rp = ''?''"
  proof
    assume w: "hd ?lh = ''*'' \<or> hd ?lh = ''?''"
    with assms have "\<not> 1 < length ?lh" by (simp add: wildcard_with_hyphen_def Let_def)
    moreover have "?lh \<noteq> []" by (rule Split_not_Nil)
    ultimately have "length ?lh = 1" by (cases ?lh) simp_all
    then have "?lh = [?rp]" by (rule Split_single)
    with w show "?rp = ''*'' \<or> ?rp = ''?''" by simp
  next
    assume "?rp = ''*'' \<or> ?rp = ''?''"
    then show "hd ?lh = ''*'' \<or> hd ?lh = ''?''" by auto
  qed
  then show ?thesis by (simp add: starred_def wildcard_step1_def Let_def)
qed

text \<open>
  C2, amended: for a field whose maximum is below 63 and an accepted field expression
  in which no \<open>*\<close> or \<open>?\<close> is followed by a hyphen, the wildcard bit is set if and
  only if one of the comma-separated sub-expressions has the range part \<open>*\<close> or \<open>?\<close>
  and no step or the step 1. So \<open>*\<close>, \<open>?\<close>, \<open>*/1\<close> and \<open>*,5\<close> set the bit and \<open>*/2\<close>
  does not. In a descriptor, a field of all legal values has the bit and a field pinned
  to its minimum has not.
\<close>

theorem wildcard_bit_iff_plain:
  "(unat (max_b r) < 63 \<and> getField fld r = Some (m, None) \<and>
    (\<forall>expr \<in> set (FieldsFunc fld (\<lambda>c. c = CHR '','')). \<not> wildcard_with_hyphen expr) \<longrightarrow>
      (bit m 63 \<longleftrightarrow>
         (\<exists>expr \<in> set (FieldsFunc fld (\<lambda>c. c = CHR '','')). wildcard_step1 expr))) \<and>
   (min_b r \<le> max_b r \<and> unat (max_b r) < 63 \<longrightarrow>
      (\<exists>a. all_b r = Some a \<and> bit a 63) \<and> \<not> bit (push_bit (unat (min_b r)) 1 :: u64) 63)"
proof (intro conjI impI)
  assume h: "unat (max_b r) < 63 \<and> getField fld r = Some (m, None) \<and>
    (\<forall>expr \<in> set (FieldsFunc fld (\<lambda>c. c = CHR '','')). \<not> wildcard_with_hyphen expr)"
  then have "bit m 63 \<longleftrightarrow> (\<exists>expr \<in> set (FieldsFunc fld (\<lambda>c. c = CHR '','')). starred expr)"
    using getField_wildcard by blast
  with h show "bit m 63 \<longleftrightarrow>
      (\<exists>expr \<in> set (FieldsFunc fld (\<lambda>c. c = CHR '','')). wildcard_step1 expr)"
    using starred_wildcard_step1 by blast
next
  assume "min_b r \<le> max_b r \<and> unat (max_b r) < 63"
  then have "unat (max_b r) < 2 ^ 63" by simp
  from all_b_within [OF this] show "\<exists>a. all_b r = Some a \<and> bit a 63" by blast
next
  assume "min_b r \<le> max_b r \<and> unat (max_b r) < 63"
  then have "unat (min_b r) < 63" by (simp add: word_le_nat_alt)
  then show "\<not> bit (push_bit (unat (min_b r)) 1 :: u64) 63"
    by (simp add: bit_exp_u64)
qed

theorem wildcard_bit_iff_plain_witness:
  "(\<exists>expr \<in> set (FieldsFunc ''*/1'' (\<lambda>c. c = CHR '','')). wildcard_step1 expr) \<and>
   (\<exists>a. all_b minutes = Some a \<and> bit a 63)"
proof -
  have "min_b minutes \<le> max_b minutes \<and> unat (max_b minutes) < 63"
    by (simp add: minutes_def)
  with wildcard_bit_iff_plain [of minutes "''*/1''" "0x8FFFFFFFFFFFFFFF"]
  have all: "\<exists>a. all_b minutes = Some a \<and> bit a 63" by blast
  have "unat (max_b minutes) < 63 \<and> getField ''*/1'' minutes = Some (0x8FFFFFFFFFFFFFFF, None) \<and>
    (\<forall>expr \<in> set (FieldsFunc ''*/1'' (\<lambda>c. c = CHR '','')). \<not> wildcard_with_hyphen expr)"
    by code_simp
  with wildcard_bit_iff_plain [of minutes "''*/1''" "0x8FFFFFFFFFFFFFFF"]
  have "bit (0x8FFFFFFFFFFFFFFF :: u64) 63 \<longleftrightarrow>
      (\<exists>expr \<in> set (FieldsFunc ''*/1'' (\<lambda>c. c = CHR '','')). wildcard_step1 expr)"
    by blast
  moreover have "bit (0x8FFFFFFFFFFFFFFF :: u64) 63" by code_simp
  ultimately show ?thesis using all by blast
qed

section \<open>The timezone prefix\<close>

lemma Index_absent: "c \<notin> set s \<Longrightarrow> Index s c = - 1"
  by (induction s) auto

lemma Index_ge: "- 1 \<le> Index s c"
  by (induction s) (auto simp: Let_def)

text \<open>
  C9: for a spec that begins with \<open>TZ=\<close> or \<open>CRON_TZ=\<close> and holds no space, \<open>Parse\<close>
  returns no pair of result and error: the index of the first space is -1, the slice
  up to it is out of range, and the call panics.
\<close>

theorem timezone_without_space_panics:
  "(HasPrefix spec ''TZ='' \<or> HasPrefix spec ''CRON_TZ='') \<and> CHR '' '' \<notin> set spec
   \<longrightarrow> Parse e p spec = Some Panic"
proof
  assume h: "(HasPrefix spec ''TZ='' \<or> HasPrefix spec ''CRON_TZ='') \<and> CHR '' '' \<notin> set spec"
  then have ne: "spec \<noteq> []" by (auto simp: HasPrefix_def)
  from h have i: "Index spec CHR '' '' = - 1" by (simp add: Index_absent)
  have "slice spec (Index spec CHR ''='' + 1) (- 1) = None"
    using Index_ge [of spec "CHR ''=''"] by (simp add: slice_def)
  with h i have "Parse_timezone e spec = Panic"
    by (simp add: Parse_timezone_def Let_def)
  with ne show "Parse e p spec = Some Panic" by (simp add: Parse_def)
qed

theorem timezone_without_space_panics_witness:
  "Parse \<lparr>LoadLocation = \<lambda>n. Inl ''unknown time zone'',
       ParseDuration = \<lambda>d. Inl ''invalid duration'', Local = ''Local''\<rparr>
     \<lparr>options = 380\<rparr> ''TZ=UTC'' = Some Panic"
proof -
  have "(HasPrefix ''TZ=UTC'' ''TZ='' \<or> HasPrefix ''TZ=UTC'' ''CRON_TZ='') \<and>
      CHR '' '' \<notin> set ''TZ=UTC''"
    by (simp add: HasPrefix_def)
  with timezone_without_space_panics [of "''TZ=UTC''"] show ?thesis by blast
qed

section \<open>Tokens of commas\<close>

lemma FieldsFunc_from_separators:
  "\<forall>c \<in> set t. f c \<Longrightarrow> FieldsFunc_from f [] t = []"
  by (induction t) auto

lemma FieldsFunc_from_token:
  "\<forall>c \<in> set t. \<not> f c \<Longrightarrow> FieldsFunc_from f cur (t @ rest) = FieldsFunc_from f (cur @ t) rest"
  by (induction t arbitrary: cur) auto

lemma getField_separators:
  assumes "set t \<subseteq> {CHR '',''}"
  shows "getField t r = Some (0, None)"
proof -
  from assms have "\<forall>c \<in> set t. c = CHR '',''" by auto
  then have "FieldsFunc t (\<lambda>c. c = CHR '','') = []"
    unfolding FieldsFunc_def by (rule FieldsFunc_from_separators)
  then show ?thesis by (simp add: getField_def)
qed

lemma standardParser_value:
  "standardParser = Ok \<lparr>options = 380\<rparr>"
  by (simp add: standardParser_def NewParser_def Minute_def Hour_def Dom_def Month_def Dow_def
      Descriptor_def DowOptional_def SecondOptional_def)

lemma normalize_standard:
  "normalizeFields [a, b, c, d, w] 380 = Ok [''0'', a, b, c, d, w]"
  by (simp add: normalizeFields_def places_def defaults_def enumerate_eq_zip
      Second_def Minute_def Hour_def Dom_def Month_def Dow_def
      Descriptor_def DowOptional_def SecondOptional_def)

lemma star_fields:
  "getField ''0'' seconds = Some (1, None)"
  "getField ''*'' hours = Some (0x8000000000FFFFFF, None)"
  "getField ''*'' dom = Some (0x80000000FFFFFFFE, None)"
  "getField ''*'' months = Some (0x8000000000001FFE, None)"
  "getField ''*'' dow = Some (0x800000000000007F, None)"
  by code_simp+

text \<open>
  C10: for a field token that consists of commas only, \<open>getField\<close> returns the mask 0
  and no error, since the split on commas drops every empty piece. So \<open>Parse\<close> accepts
  a spec with such a token: with the standard parser and the token in the place of the
  minutes, the schedule has the minute mask 0, which permits no value.
\<close>

theorem commas_compile_to_empty_mask:
  "(set t \<subseteq> {CHR '',''} \<longrightarrow> getField t r = Some (0, None)) \<and>
   (set t \<subseteq> {CHR '',''} \<and> t \<noteq> [] \<longrightarrow>
      ParseStandard e (t @ '' * * * *'') =
        Some (Ok (Spec \<lparr>s_Second = 1, s_Minute = 0, s_Hour = 0x8000000000FFFFFF,
          s_Dom = 0x80000000FFFFFFFE, s_Month = 0x8000000000001FFE,
          s_Dow = 0x800000000000007F, s_Location = Local e\<rparr>)))"
proof (intro conjI impI)
  assume "set t \<subseteq> {CHR '',''}"
  then show "getField t r = Some (0, None)" by (rule getField_separators)
next
  assume h: "set t \<subseteq> {CHR '',''} \<and> t \<noteq> []"
  let ?spec = "t @ '' * * * *''"
  from h obtain t' where t: "t = CHR '','' # t'" by (cases t) auto
  have nosp: "\<forall>c \<in> set t. \<not> isSpace c" using h by (auto simp: isSpace_def)
  have tz: "Parse_timezone e ?spec = Ok (Local e, ?spec)"
    by (simp add: Parse_timezone_def HasPrefix_def t)
  have at: "\<not> HasPrefix ?spec ''@''" by (simp add: HasPrefix_def t)
  have "Fields ?spec = FieldsFunc_from isSpace t '' * * * *''"
    unfolding Fields_def FieldsFunc_def using FieldsFunc_from_token [OF nosp, of "[]"] by simp
  also have "\<dots> = [t, ''*'', ''*'', ''*'', ''*'']"
    using h by (simp add: isSpace_def)
  finally have fl: "Fields ?spec = [t, ''*'', ''*'', ''*'', ''*'']" .
  have pf: "Parse_fields (Local e) [''0'', t, ''*'', ''*'', ''*'', ''*''] =
      Some (Ok (Spec \<lparr>s_Second = 1, s_Minute = 0, s_Hour = 0x8000000000FFFFFF,
          s_Dom = 0x80000000FFFFFFFE, s_Month = 0x8000000000001FFE,
          s_Dow = 0x800000000000007F, s_Location = Local e\<rparr>))"
    using h by (simp add: Parse_fields_def field_def star_fields getField_separators)
  have "Parse e \<lparr>options = 380\<rparr> ?spec =
      Some (Ok (Spec \<lparr>s_Second = 1, s_Minute = 0, s_Hour = 0x8000000000FFFFFF,
          s_Dom = 0x80000000FFFFFFFE, s_Month = 0x8000000000001FFE,
          s_Dow = 0x800000000000007F, s_Location = Local e\<rparr>))"
    using at by (simp add: Parse_def tz fl normalize_standard pf)
  then show "ParseStandard e ?spec =
        Some (Ok (Spec \<lparr>s_Second = 1, s_Minute = 0, s_Hour = 0x8000000000FFFFFF,
          s_Dom = 0x80000000FFFFFFFE, s_Month = 0x8000000000001FFE,
          s_Dow = 0x800000000000007F, s_Location = Local e\<rparr>))"
    by (simp add: ParseStandard_def standardParser_value)
qed

theorem commas_compile_to_empty_mask_witness:
  "getField '',,'' minutes = Some (0, None) \<and>
   ParseStandard \<lparr>LoadLocation = \<lambda>n. Inl ''unknown time zone'',
       ParseDuration = \<lambda>d. Inl ''invalid duration'', Local = ''Local''\<rparr> '',, * * * *'' =
     Some (Ok (Spec \<lparr>s_Second = 1, s_Minute = 0, s_Hour = 0x8000000000FFFFFF,
       s_Dom = 0x80000000FFFFFFFE, s_Month = 0x8000000000001FFE,
       s_Dow = 0x800000000000007F, s_Location = ''Local''\<rparr>))"
proof -
  have "set '',,'' \<subseteq> {CHR '',''} \<and> '',,'' \<noteq> []" by simp
  with commas_compile_to_empty_mask [of "'',,''" minutes
      "\<lparr>LoadLocation = \<lambda>n. Inl ''unknown time zone'',
        ParseDuration = \<lambda>d. Inl ''invalid duration'', Local = ''Local''\<rparr>"]
  show ?thesis by simp
qed

section \<open>normalizeFields\<close>

text \<open>
  The last loop returns, when the tokens suffice: each configured place takes the next
  token, every other place keeps what it had.
\<close>

lemma populate_spec:
  assumes "length ex = k + length ps"
    and "n + length (filter (\<lambda>place. 0 < opts AND place) ps) \<le> length toks"
  shows "\<exists>out. populate opts toks (enumerate k ps) n ex = Ok out \<and> length out = length ex \<and>
           (\<forall>i<k. out ! i = ex ! i) \<and>
           (\<forall>j<length ps. out ! (k + j) =
              (if 0 < opts AND ps ! j
               then toks ! (n + length (filter (\<lambda>place. 0 < opts AND place) (take j ps)))
               else ex ! (k + j)))"
  using assms
proof (induction ps arbitrary: k n ex)
  case Nil
  then show ?case by simp
next
  case (Cons p ps)
  let ?c = "\<lambda>place. 0 < opts AND place"
  show ?case
  proof (cases "?c p")
    case True
    with Cons.prems have n: "n < length toks" by simp
    let ?ex = "ex[k := toks ! n]"
    from Cons.prems True have a: "length ?ex = Suc k + length ps"
      and b: "Suc n + length (filter ?c ps) \<le> length toks" by simp_all
    from Cons.IH [OF a b] obtain out where
      out: "populate opts toks (enumerate (Suc k) ps) (Suc n) ?ex = Ok out"
      and len: "length out = length ?ex"
      and low: "\<forall>i<Suc k. out ! i = ?ex ! i"
      and high: "\<forall>j<length ps. out ! (Suc k + j) =
              (if ?c (ps ! j) then toks ! (Suc n + length (filter ?c (take j ps)))
               else ?ex ! (Suc k + j))"
      by blast
    have "populate opts toks (enumerate k (p # ps)) n ex = Ok out"
      using True n out by simp
    moreover have "length out = length ex" using len by simp
    moreover have "\<forall>i<k. out ! i = ex ! i" using low by simp
    moreover have "out ! (k + j) =
              (if ?c ((p # ps) ! j) then toks ! (n + length (filter ?c (take j (p # ps))))
               else ex ! (k + j))" if "j < length (p # ps)" for j
    proof (cases j)
      case 0
      with low True Cons.prems(1) show ?thesis by simp
    next
      case (Suc j')
      with that high True show ?thesis by simp
    qed
    ultimately show ?thesis by blast
  next
    case False
    from Cons.prems False have a: "length ex = Suc k + length ps"
      and b: "n + length (filter ?c ps) \<le> length toks" by simp_all
    from Cons.IH [OF a b] obtain out where
      out: "populate opts toks (enumerate (Suc k) ps) n ex = Ok out"
      and len: "length out = length ex"
      and low: "\<forall>i<Suc k. out ! i = ex ! i"
      and high: "\<forall>j<length ps. out ! (Suc k + j) =
              (if ?c (ps ! j) then toks ! (n + length (filter ?c (take j ps)))
               else ex ! (Suc k + j))"
      by blast
    have "populate opts toks (enumerate k (p # ps)) n ex = Ok out"
      using False out by simp
    moreover have "\<forall>i<k. out ! i = ex ! i" using low by simp
    moreover have "out ! (k + j) =
              (if ?c ((p # ps) ! j) then toks ! (n + length (filter ?c (take j (p # ps))))
               else ex ! (k + j))" if "j < length (p # ps)" for j
    proof (cases j)
      case 0
      with low False show ?thesis by simp
    next
      case (Suc j')
      with that high False show ?thesis by simp
    qed
    ultimately show ?thesis using len by blast
  qed
qed

lemma flag_facts:
  fixes x :: int
  shows "(x OR 1) AND 2 = x AND 2" "(x OR 1) AND 128 = x AND 128"
    "(x OR 64) AND 2 = x AND 2" "(x OR 64) AND 128 = x AND 128"
  by (simp_all add: bit.conj_disj_distrib2)

text \<open>
  C6: with exactly one of the two optional flags set and as many tokens as the
  configured minimum (one less than the number of configured fields, the optional
  field counted), \<open>normalizeFields\<close> adds the missing token, \<open>*\<close> at the end for an
  optional day of week and \<open>0\<close> at the start for an optional second, and returns six
  tokens: each configured field holds the next token in order, every other field its
  default.
\<close>

theorem normalizeFields_optional:
  "(0 < opts AND SecondOptional) \<noteq> (0 < opts AND DowOptional) \<and>
   opts' = (if 0 < opts AND DowOptional then opts OR Dow else opts OR Second) \<and>
   toks = (if 0 < opts AND DowOptional then flds @ [''*''] else ''0'' # flds) \<and>
   Suc (length flds) = length (filter (\<lambda>place. 0 < opts' AND place) places)
   \<longrightarrow> (\<exists>out. normalizeFields flds opts = Ok out \<and> length out = 6 \<and>
          (\<forall>i<6. out ! i =
             (if 0 < opts' AND places ! i
              then toks ! length (filter (\<lambda>place. 0 < opts' AND place) (take i places))
              else defaults ! i)))"
proof
  assume h: "(0 < opts AND SecondOptional) \<noteq> (0 < opts AND DowOptional) \<and>
   opts' = (if 0 < opts AND DowOptional then opts OR Dow else opts OR Second) \<and>
   toks = (if 0 < opts AND DowOptional then flds @ [''*''] else ''0'' # flds) \<and>
   Suc (length flds) = length (filter (\<lambda>place. 0 < opts' AND place) places)"
  let ?c = "\<lambda>place. 0 < opts' AND place"
  from h have len: "Suc (length flds) = length (filter ?c places)" by simp
  have nf: "normalizeFields flds opts = populate opts' toks (enumerate 0 places) 0 defaults"
  proof (cases "0 < opts AND DowOptional")
    case True
    with h have so: "\<not> 0 < opts AND SecondOptional" and o': "opts' = opts OR Dow"
      and t: "toks = flds @ [''*'']" by auto
    from True have d': "0 < (opts OR Dow) AND DowOptional"
      by (simp add: Dow_def DowOptional_def flag_facts)
    show ?thesis
      unfolding normalizeFields_def
      using True so d' len [unfolded o'] by (simp add: o' t defaults_def)
  next
    case False
    with h have so: "0 < opts AND SecondOptional" and o': "opts' = opts OR Second"
      and t: "toks = ''0'' # flds" by auto
    from False have d': "\<not> 0 < (opts OR Second) AND DowOptional"
      by (simp add: Second_def DowOptional_def flag_facts)
    from so have s': "0 < (opts OR Second) AND SecondOptional"
      by (simp add: Second_def SecondOptional_def flag_facts)
    show ?thesis
      unfolding normalizeFields_def
      using False so d' s' len [unfolded o'] by (simp add: o' t defaults_def)
  qed
  have "length defaults = 0 + length places" by (simp add: defaults_def places_def)
  moreover have "0 + length (filter ?c places) \<le> length toks" using h len by auto
  ultimately obtain out where out: "populate opts' toks (enumerate 0 places) 0 defaults = Ok out"
    and l: "length out = length defaults"
    and v: "\<forall>j<length places. out ! (0 + j) =
              (if ?c (places ! j) then toks ! (0 + length (filter ?c (take j places)))
               else defaults ! (0 + j))"
    using populate_spec [of defaults 0 places 0 opts' toks] by blast
  have "length places = 6" "length defaults = 6" by (simp_all add: places_def defaults_def)
  with out l v nf show "\<exists>out. normalizeFields flds opts = Ok out \<and> length out = 6 \<and>
          (\<forall>i<6. out ! i =
             (if 0 < opts' AND places ! i
              then toks ! length (filter (\<lambda>place. 0 < opts' AND place) (take i places))
              else defaults ! i))"
    by simp
qed

theorem normalizeFields_optional_witness:
  "\<exists>out. normalizeFields [''a'', ''b'', ''c''] 184 = Ok out \<and> length out = 6 \<and>
     out ! 0 = ''0'' \<and> out ! 2 = ''a'' \<and> out ! 4 = ''c'' \<and> out ! 5 = ''*''"
proof -
  note defs = Second_def SecondOptional_def Minute_def Hour_def Dom_def Month_def Dow_def
    DowOptional_def places_def defaults_def
  have "(0 < (184::int) AND SecondOptional) \<noteq> (0 < (184::int) AND DowOptional) \<and>
     (248::int) = (if 0 < (184::int) AND DowOptional then 184 OR Dow else 184 OR Second) \<and>
     [''a'', ''b'', ''c'', ''*''] =
       (if 0 < (184::int) AND DowOptional then [''a'', ''b'', ''c''] @ [''*'']
        else ''0'' # [''a'', ''b'', ''c'']) \<and>
     Suc (length [''a'', ''b'', ''c'']) = length (filter (\<lambda>place. 0 < (248::int) AND place) places)"
    by (simp add: defs)
  from normalizeFields_optional [of 184 248 "[''a'', ''b'', ''c'', ''*'']" "[''a'', ''b'', ''c'']",
      THEN mp, OF this]
  obtain out where out: "normalizeFields [''a'', ''b'', ''c''] 184 = Ok out" "length out = 6"
    and v: "\<forall>i<6. out ! i =
             (if 0 < (248::int) AND places ! i
              then [''a'', ''b'', ''c'', ''*''] !
                length (filter (\<lambda>place. 0 < (248::int) AND place) (take i places))
              else defaults ! i)"
    by blast
  from v [rule_format, of 0] have "out ! 0 = ''0''" by (simp add: defs)
  moreover from v [rule_format, of 2] have "out ! 2 = ''a''" by (simp add: defs)
  moreover from v [rule_format, of 4] have "out ! 4 = ''c''" by (simp add: defs)
  moreover from v [rule_format, of 5] have "out ! 5 = ''*''" by (simp add: defs)
  ultimately show ?thesis using out by blast
qed

end
